theory Spec2Isabelle
  imports Main "HOL-Library.Sublist"
begin

section \<open>Text primitives of the script\<close>

text \<open>
  The script \<^verbatim>\<open>remove_console_logs.py\<close> works on Python strings. A string is modelled as
  a \<^typ>\<open>string\<close>, one \<^typ>\<open>char\<close> per code point, so the model covers the texts whose
  code points are at most 255. The script compares characters only with the newline, the
  two parentheses, the semicolon and the letters of \<^verbatim>\<open>console.<name>\<close>, and tests them for
  the white space class of the regular expression.
\<close>

definition nl :: char where
  "nl = CHR 0x0A"

text \<open>\<^verbatim>\<open>content.split('\n')\<close>: the pieces between newlines; never the empty list.\<close>

primrec split_nl :: "string \<Rightarrow> string list" where
  "split_nl [] = [[]]"
| "split_nl (c # cs) =
     (if c = nl then [] # split_nl cs
      else (case split_nl cs of [] \<Rightarrow> [[c]] | l # ls \<Rightarrow> (c # l) # ls))"

text \<open>\<^verbatim>\<open>'\n'.join(new_lines)\<close>.\<close>

fun join_nl :: "string list \<Rightarrow> string" where
  "join_nl [] = []"
| "join_nl [l] = l"
| "join_nl (l # ls) = l @ nl # join_nl ls"

text \<open>\<^verbatim>\<open>line.count('(') - line.count(')')\<close>, a Python integer.\<close>

definition open_count :: "string \<Rightarrow> int" where
  "open_count line = int (count_list line (CHR ''(''))"

definition close_count :: "string \<Rightarrow> int" where
  "close_count line = int (count_list line (CHR '')''))"

definition paren_balance :: "string \<Rightarrow> int" where
  "paren_balance line = open_count line - close_count line"

section \<open>The statement detector\<close>

text \<open>
  The white space class \<^verbatim>\<open>\s\<close> of a Python 3 pattern on \<^verbatim>\<open>str\<close>: the characters for
  which \<^verbatim>\<open>str.isspace\<close> holds. Up to code point 255 these are 9 to 13, 28 to 32, 133
  and 160.
\<close>

definition py_space :: "char \<Rightarrow> bool" where
  "py_space c = (of_char c \<in> {9, 10, 11, 12, 13, 28, 29, 30, 31, 32, 133, 160 :: nat})"

definition console_names :: "string list" where
  "console_names = [''log'', ''error'', ''warn'', ''debug'', ''info'']"

text \<open>What is left of \<open>s\<close> after the literal \<open>p\<close>, when \<open>s\<close> starts with it.\<close>

fun strip_prefix :: "string \<Rightarrow> string \<Rightarrow> string option" where
  "strip_prefix [] s = Some s"
| "strip_prefix (p # ps) [] = None"
| "strip_prefix (p # ps) (c # cs) = (if p = c then strip_prefix ps cs else None)"

text \<open>
  \<^verbatim>\<open>re.search(r'^\s*console\.(log|error|warn|debug|info)\s*\(', line)\<close>, without
  \<^verbatim>\<open>re.MULTILINE\<close>: the match is anchored at the start of the line. The pattern is read
  from left to right: white space, the literal \<^verbatim>\<open>console.\<close>, one of the five names, white
  space, an opening parenthesis. What follows a run of white space is never white space,
  so the greedy run is the only way to match it.
\<close>

definition after_name :: "string \<Rightarrow> string \<Rightarrow> bool" where
  "after_name r nm =
     (case strip_prefix nm r of
        None \<Rightarrow> False
      | Some r' \<Rightarrow> (case dropWhile py_space r' of [] \<Rightarrow> False | c # _ \<Rightarrow> c = CHR ''(''))"

definition opens_call :: "string \<Rightarrow> bool" where
  "opens_call line =
     (case strip_prefix ''console.'' (dropWhile py_space line) of
        None \<Rightarrow> False
      | Some r \<Rightarrow> list_ex (after_name r) console_names)"

section \<open>The span loop, the counter and the remover\<close>

text \<open>
  The inner loop of both passes:
  \<^verbatim>\<open>while i < len(lines) and depth > 0: depth += lines[i].count('(') - lines[i].count(')'); i += 1\<close>.
  Only \<open>i\<close> is read after the loop.
\<close>

function skip_span :: "string list \<Rightarrow> nat \<Rightarrow> int \<Rightarrow> nat" where
  "skip_span lines i depth =
     (if i < length lines \<and> 0 < depth
      then skip_span lines (i + 1) (depth + paren_balance (lines ! i))
      else i)"
  by pat_completeness auto
termination
  by (relation "measure (\<lambda>(lines, i, depth). length lines - i)") auto

declare skip_span.simps [simp del]

lemma skip_span_ge: "i \<le> skip_span lines i depth"
proof (induction lines i depth rule: skip_span.induct)
  case (1 lines i depth)
  show ?case
  proof (cases "i < length lines \<and> 0 < depth")
    case True
    with "1" have "i + 1 \<le> skip_span lines (i + 1) (depth + paren_balance (lines ! i))"
      by simp
    with True show ?thesis
      by (subst skip_span.simps) simp
  next
    case False
    then show ?thesis
      by (subst skip_span.simps) auto
  qed
qed

lemma skip_span_le: "i \<le> length lines \<Longrightarrow> skip_span lines i depth \<le> length lines"
proof (induction lines i depth rule: skip_span.induct)
  case (1 lines i depth)
  show ?case
  proof (cases "i < length lines \<and> 0 < depth")
    case True
    with "1" have "skip_span lines (i + 1) (depth + paren_balance (lines ! i)) \<le> length lines"
      by simp
    with True show ?thesis
      by (subst skip_span.simps) simp
  next
    case False
    with "1.prems" show ?thesis
      by (subst skip_span.simps) auto
  qed
qed

text \<open>The while loop of \<^verbatim>\<open>count_console_statements\<close>, with its state \<open>i\<close>, \<open>count\<close>.\<close>

function count_loop :: "string list \<Rightarrow> nat \<Rightarrow> int \<Rightarrow> int" where
  "count_loop lines i count =
     (if i < length lines then
        (if opens_call (lines ! i) then
           (if CHR ''('' \<in> set (lines ! i) \<and> CHR '')'' \<notin> set (lines ! i)
            then count_loop lines (skip_span lines (i + 1) (paren_balance (lines ! i))) (count + 1)
            else count_loop lines (i + 1) (count + 1))
         else count_loop lines (i + 1) count)
      else count)"
  by pat_completeness auto
termination
proof (relation "measure (\<lambda>(lines, i, count). length lines - i)")
  fix lines :: "string list" and i :: nat and count :: int
  assume "i < length lines"
  moreover have "i + 1 \<le> skip_span lines (i + 1) (paren_balance (lines ! i))"
    by (rule skip_span_ge)
  ultimately show "((lines, skip_span lines (i + 1) (paren_balance (lines ! i)), count + 1),
      (lines, i, count)) \<in> measure (\<lambda>(lines, i, count). length lines - i)"
    by simp
qed auto

declare count_loop.simps [simp del]

definition count_console_statements :: "string \<Rightarrow> int" where
  "count_console_statements content = count_loop (split_nl content) 0 0"

text \<open>
  The while loop of \<^verbatim>\<open>remove_console_statements\<close>, with its state \<open>i\<close>, \<open>new_lines\<close>,
  \<open>removed_count\<close>.
\<close>

function remove_loop :: "string list \<Rightarrow> nat \<Rightarrow> string list \<Rightarrow> int \<Rightarrow> string list \<times> int" where
  "remove_loop lines i new_lines removed_count =
     (if i < length lines then
        (if opens_call (lines ! i) then
           (if CHR '';'' \<in> set (lines ! i)
               \<or> (CHR '')'' \<in> set (lines ! i) \<and> open_count (lines ! i) \<le> close_count (lines ! i))
            then remove_loop lines (i + 1) new_lines (removed_count + 1)
            else remove_loop lines (skip_span lines (i + 1) (paren_balance (lines ! i)))
                   new_lines (removed_count + 1))
         else remove_loop lines (i + 1) (new_lines @ [lines ! i]) removed_count)
      else (new_lines, removed_count))"
  by pat_completeness auto
termination
proof (relation "measure (\<lambda>(lines, i, new_lines, removed_count). length lines - i)")
  fix lines :: "string list" and i :: nat and new_lines :: "string list" and removed_count :: int
  assume "i < length lines"
  moreover have "i + 1 \<le> skip_span lines (i + 1) (paren_balance (lines ! i))"
    by (rule skip_span_ge)
  ultimately show "((lines, skip_span lines (i + 1) (paren_balance (lines ! i)), new_lines,
      removed_count + 1), (lines, i, new_lines, removed_count))
      \<in> measure (\<lambda>(lines, i, new_lines, removed_count). length lines - i)"
    by simp
qed auto

declare remove_loop.simps [simp del]

definition remove_lines :: "string list \<Rightarrow> string list \<times> int" where
  "remove_lines lines = remove_loop lines 0 [] 0"

definition remove_console_statements :: "string \<Rightarrow> string \<times> int" where
  "remove_console_statements content =
     (case remove_lines (split_nl content) of
        (new_lines, removed_count) \<Rightarrow> (join_nl new_lines, removed_count))"

section \<open>Spans of the remover\<close>

text \<open>
  The index at which each pass resumes after a line that opens a call: the branch taken at
  lines 69 to 81 of the remover, and at lines 43 to 50 of the counter.
\<close>

definition remover_next :: "string list \<Rightarrow> nat \<Rightarrow> nat" where
  "remover_next lines i =
     (if CHR '';'' \<in> set (lines ! i)
         \<or> (CHR '')'' \<in> set (lines ! i) \<and> open_count (lines ! i) \<le> close_count (lines ! i))
      then i + 1
      else skip_span lines (i + 1) (paren_balance (lines ! i)))"

definition counter_next :: "string list \<Rightarrow> nat \<Rightarrow> nat" where
  "counter_next lines i =
     (if CHR ''('' \<in> set (lines ! i) \<and> CHR '')'' \<notin> set (lines ! i)
      then skip_span lines (i + 1) (paren_balance (lines ! i))
      else i + 1)"

text \<open>
  The remover's loop once more, recording instead of the retained lines the span
  \<open>(start, end)\<close>, both inclusive, of each statement it drops.
\<close>

function removed_spans :: "string list \<Rightarrow> nat \<Rightarrow> (nat \<times> nat) list" where
  "removed_spans lines i =
     (if i < length lines then
        (if opens_call (lines ! i) then
           (if CHR '';'' \<in> set (lines ! i)
               \<or> (CHR '')'' \<in> set (lines ! i) \<and> open_count (lines ! i) \<le> close_count (lines ! i))
            then (i, i) # removed_spans lines (i + 1)
            else (i, skip_span lines (i + 1) (paren_balance (lines ! i)) - 1)
                   # removed_spans lines (skip_span lines (i + 1) (paren_balance (lines ! i))))
         else removed_spans lines (i + 1))
      else [])"
  by pat_completeness auto
termination
proof (relation "measure (\<lambda>(lines, i). length lines - i)")
  fix lines :: "string list" and i :: nat
  assume "i < length lines"
  moreover have "i + 1 \<le> skip_span lines (i + 1) (paren_balance (lines ! i))"
    by (rule skip_span_ge)
  ultimately show "((lines, skip_span lines (i + 1) (paren_balance (lines ! i))), (lines, i))
      \<in> measure (\<lambda>(lines, i). length lines - i)"
    by simp
qed auto

declare removed_spans.simps [simp del]

definition in_span :: "nat \<Rightarrow> nat \<times> nat \<Rightarrow> bool" where
  "in_span k sp = (fst sp \<le> k \<and> k \<le> snd sp)"

section \<open>The rules as the specification words them\<close>

text \<open>
  The detector as the specification words it: ignoring leading white space, one of the
  five names \<^verbatim>\<open>log\<close>, \<^verbatim>\<open>error\<close>, \<^verbatim>\<open>warn\<close>, \<^verbatim>\<open>debug\<close>, \<^verbatim>\<open>info\<close>, optional white space,
  an opening parenthesis.
\<close>

definition spec_detects :: "string \<Rightarrow> bool" where
  "spec_detects line = list_ex (after_name (dropWhile py_space line)) console_names"

text \<open>
  The span resolver as the specification words it. The running depth after the lines
  \<open>i\<close> to \<open>j\<close> is the sum of their balances. A line with a semicolon, or with no more
  opening than closing parentheses, is its own span; otherwise the span ends at the first
  line where the depth has come back to zero (is no longer positive), and at the last line
  of the input when there is none.
\<close>

definition depth_through :: "string list \<Rightarrow> nat \<Rightarrow> nat \<Rightarrow> int" where
  "depth_through lines i j = sum_list (map (\<lambda>k. paren_balance (lines ! k)) [i..<Suc j])"

definition spec_span_last :: "string list \<Rightarrow> nat \<Rightarrow> nat" where
  "spec_span_last lines i =
     (if CHR '';'' \<in> set (lines ! i) \<or> open_count (lines ! i) \<le> close_count (lines ! i) then i
      else (case find (\<lambda>j. depth_through lines i j \<le> 0) [i..<length lines] of
              Some j \<Rightarrow> j
            | None \<Rightarrow> length lines - 1))"

section \<open>Files and the batch runner\<close>

text \<open>
  The disk holds the text of each file as \<^verbatim>\<open>f.read()\<close> returns it. Whether an operation on
  a file raises is the environment's choice, so it is part of the disk: a file is missing
  or unreadable (permissions, decoding, I/O), and a write may fail when the file is opened
  or later. \<^verbatim>\<open>open(file_path, 'w')\<close> truncates the file as soon as it succeeds; a write
  that fails after that leaves on the disk the first \<open>n\<close> characters that reached it.
\<close>

type_synonym path = string

text \<open>\<^verbatim>\<open>file_path.name\<close>: the last component of the path.\<close>

definition path_name :: "path \<Rightarrow> string" where
  "path_name file_path = rev (takeWhile (\<lambda>c. c \<noteq> CHR ''/'') (rev file_path))"

datatype io_error = Read_error | Open_error | Write_error

datatype write_fault = No_fault | Open_fault | Write_fault nat

record disk =
  files :: "path \<rightharpoonup> string"
  unreadable :: "path set"
  faults :: "path \<Rightarrow> write_fault"

text \<open>\<^verbatim>\<open>with open(file_path, 'r', encoding='utf-8') as f: original_content = f.read()\<close>.\<close>

definition read_text :: "disk \<Rightarrow> path \<Rightarrow> io_error + string" where
  "read_text d file_path =
     (case files d file_path of
        None \<Rightarrow> Inl Read_error
      | Some content \<Rightarrow> if file_path \<in> unreadable d then Inl Read_error else Inr content)"

text \<open>\<^verbatim>\<open>with open(file_path, 'w', encoding='utf-8') as f: f.write(new_content)\<close>.\<close>

definition write_text :: "disk \<Rightarrow> path \<Rightarrow> string \<Rightarrow> io_error option \<times> disk" where
  "write_text d file_path content =
     (case faults d file_path of
        Open_fault \<Rightarrow> (Some Open_error, d)
      | Write_fault n \<Rightarrow> (Some Write_error, d\<lparr>files := (files d)(file_path \<mapsto> take n content)\<rparr>)
      | No_fault \<Rightarrow> (None, d\<lparr>files := (files d)(file_path \<mapsto> content)\<rparr>))"

text \<open>What the script prints, one constructor for each \<^verbatim>\<open>print\<close> that carries data.\<close>

datatype message =
    Error_processing string io_error
  | Found_files nat
  | Processing_files
  | Removed string int
  | No_statements string
  | Error_line string
  | Files_cleaned nat
  | Total_removed int
  | Breakdown "(string \<times> int) list"
  | No_statements_anywhere
  | All_processed

text \<open>
  \<^verbatim>\<open>process_file\<close>: the returned triple, what it printed, and the disk afterwards. Every
  exception raised inside the \<^verbatim>\<open>try\<close> is caught and becomes the triple with the sentinel
  \<open>- 1\<close>. The count of the new content (\<^verbatim>\<open>remaining_count\<close>) is computed and never used.
\<close>

definition process_file :: "path \<Rightarrow> disk \<Rightarrow> (string \<times> int \<times> int) \<times> message list \<times> disk" where
  "process_file file_path d =
     (case read_text d file_path of
        Inl e \<Rightarrow> ((path_name file_path, 0, - 1), [Error_processing (path_name file_path) e], d)
      | Inr original_content \<Rightarrow>
          if count_console_statements original_content = 0
          then ((path_name file_path, 0, 0), [], d)
          else (case remove_console_statements original_content of
                  (new_content, removed_count) \<Rightarrow>
                    (case write_text d file_path new_content of
                       (Some e, d') \<Rightarrow>
                         ((path_name file_path, 0, - 1),
                          [Error_processing (path_name file_path) e], d')
                     | (None, d') \<Rightarrow>
                         ((path_name file_path, count_console_statements original_content,
                           removed_count), [], d'))))"

text \<open>The state of \<^verbatim>\<open>main\<close>: its two accumulators, the output so far, and the disk.\<close>

record main_state =
  results :: "(string \<times> int \<times> int) list"
  total_removed :: int
  out :: "message list"
  dsk :: disk

text \<open>The body of \<^verbatim>\<open>for js_file in js_files\<close>.\<close>

definition main_step :: "main_state \<Rightarrow> path \<Rightarrow> main_state" where
  "main_step st js_file =
     (case process_file js_file (dsk st) of
        ((filename, original_count, removed_count), printed, d') \<Rightarrow>
          if 0 < removed_count then
            st\<lparr>results := results st @ [(filename, original_count, removed_count)],
               total_removed := total_removed st + removed_count,
               out := out st @ printed @ [Removed filename removed_count],
               dsk := d'\<rparr>
          else if removed_count = 0 \<and> original_count = 0 then
            st\<lparr>out := out st @ printed @ [No_statements filename], dsk := d'\<rparr>
          else
            st\<lparr>out := out st @ printed @ [Error_line filename], dsk := d'\<rparr>)"

definition main_loop :: "main_state \<Rightarrow> path list \<Rightarrow> main_state" where
  "main_loop st js_files = foldl main_step st js_files"

text \<open>
  \<^verbatim>\<open>main\<close>, given the sorted list of the files that the glob found. The breakdown is sorted
  by the removed count, largest first, ties in their order of processing.
\<close>

definition main :: "path list \<Rightarrow> disk \<Rightarrow> main_state" where
  "main js_files d =
     (let st = main_loop \<lparr>results = [], total_removed = 0,
                 out = [Found_files (length js_files), Processing_files], dsk = d\<rparr> js_files
      in st\<lparr>out := out st
           @ (if results st \<noteq> []
              then [Files_cleaned (length (results st)), Total_removed (total_removed st),
                    Breakdown (map (\<lambda>(filename, original, removed). (filename, removed))
                      (sort_key (\<lambda>(filename, original, removed). - removed) (results st)))]
              else [No_statements_anywhere])
           @ [All_processed]\<rparr>)"

text \<open>A read or a write of the file fails when \<^verbatim>\<open>process_file\<close> runs on this disk.\<close>

definition io_fails :: "disk \<Rightarrow> path \<Rightarrow> bool" where
  "io_fails d file_path =
     (case read_text d file_path of
        Inl e \<Rightarrow> True
      | Inr content \<Rightarrow> count_console_statements content \<noteq> 0 \<and> faults d file_path \<noteq> No_fault)"

text \<open>Only positive counts are tallied, and the total is their sum.\<close>

definition tally_ok :: "main_state \<Rightarrow> bool" where
  "tally_ok st \<longleftrightarrow>
     list_all (\<lambda>r. 0 < snd (snd r)) (results st)
     \<and> total_removed st = sum_list (map (\<lambda>r. snd (snd r)) (results st))"

text \<open>
  A directory of four files for concrete runs: the first cannot be read, the second holds a
  three-line statement, the third holds no statement, the write of the fourth fails after
  two characters.
\<close>

definition example_disk :: disk where
  "example_disk =
     \<lparr>files = [''/p/a.js'' \<mapsto> ''x = 1'' @ nl # ''console.log(x);'',
               ''/p/b.js'' \<mapsto> ''console.warn('' @ nl # ''  1'' @ nl # '');'' @ nl # ''y()'',
               ''/p/c.js'' \<mapsto> ''z()'',
               ''/p/d.js'' \<mapsto> ''console.log(1)'' @ nl # ''abc'' @ nl # ''def''],
      unreadable = {''/p/a.js''},
      faults = (\<lambda>p. if p = ''/p/d.js'' then Write_fault 2 else No_fault)\<rparr>"

definition example_state :: main_state where
  "example_state = \<lparr>results = [], total_removed = 0, out = [], dsk = example_disk\<rparr>"

section \<open>Supporting lemmas\<close>

subsection \<open>Splitting and joining lines\<close>

lemma split_nl_not_Nil: "split_nl s \<noteq> []"
  by (induction s) (auto split: list.splits)

lemma join_nl_Cons: "ls \<noteq> [] \<Longrightarrow> join_nl (l # ls) = l @ nl # join_nl ls"
  by (cases ls) simp_all

lemma join_split_nl: "join_nl (split_nl s) = s"
proof (induction s)
  case Nil
  show ?case by simp
next
  case (Cons c cs)
  show ?case
  proof (cases "c = nl")
    case True
    with Cons show ?thesis
      by (simp add: join_nl_Cons split_nl_not_Nil)
  next
    case False
    obtain l ls where sp: "split_nl cs = l # ls"
      using split_nl_not_Nil [of cs] by (cases "split_nl cs") auto
    have "join_nl ((c # l) # ls) = c # join_nl (l # ls)"
      by (cases ls) simp_all
    with Cons False sp show ?thesis
      by simp
  qed
qed

lemma split_nl_no_nl: "l \<in> set (split_nl s) \<Longrightarrow> nl \<notin> set l"
proof (induction s arbitrary: l)
  case Nil
  then show ?case by simp
next
  case (Cons c cs)
  then show ?case
    by (cases "split_nl cs") (auto split: if_splits)
qed

lemma split_nl_line: "nl \<notin> set l \<Longrightarrow> split_nl l = [l]"
  by (induction l) auto

lemma split_nl_append: "nl \<notin> set l \<Longrightarrow> split_nl (l @ nl # s) = l # split_nl s"
  by (induction l) auto

lemma split_join_nl:
  "ls \<noteq> [] \<Longrightarrow> \<forall>l \<in> set ls. nl \<notin> set l \<Longrightarrow> split_nl (join_nl ls) = ls"
proof (induction ls rule: join_nl.induct)
  case 1
  then show ?case by simp
next
  case (2 l)
  then show ?case by (simp add: split_nl_line)
next
  case (3 l v va)
  then show ?case by (simp add: split_nl_append)
qed

subsection \<open>The two scans\<close>

lemma remover_next_gt: "i < remover_next lines i"
  using skip_span_ge [of "i + 1" lines "paren_balance (lines ! i)"]
  by (simp add: remover_next_def)

lemma remover_next_le: "i < length lines \<Longrightarrow> remover_next lines i \<le> length lines"
  using skip_span_le [of "i + 1" lines "paren_balance (lines ! i)"]
  by (simp add: remover_next_def)

lemma counter_next_gt: "i < counter_next lines i"
  using skip_span_ge [of "i + 1" lines "paren_balance (lines ! i)"]
  by (simp add: counter_next_def)

lemma counter_next_le: "i < length lines \<Longrightarrow> counter_next lines i \<le> length lines"
  using skip_span_le [of "i + 1" lines "paren_balance (lines ! i)"]
  by (simp add: counter_next_def)

lemma remove_loop_done:
  "\<not> i < length lines \<Longrightarrow> remove_loop lines i acc n = (acc, n)"
  by (subst remove_loop.simps) simp

lemma remove_loop_keep:
  "i < length lines \<Longrightarrow> \<not> opens_call (lines ! i) \<Longrightarrow>
   remove_loop lines i acc n = remove_loop lines (i + 1) (acc @ [lines ! i]) n"
  by (subst remove_loop.simps) simp

lemma remove_loop_drop:
  "i < length lines \<Longrightarrow> opens_call (lines ! i) \<Longrightarrow>
   remove_loop lines i acc n = remove_loop lines (remover_next lines i) acc (n + 1)"
  by (subst remove_loop.simps) (simp add: remover_next_def)

lemma count_loop_done: "\<not> i < length lines \<Longrightarrow> count_loop lines i c = c"
  by (subst count_loop.simps) simp

lemma count_loop_keep:
  "i < length lines \<Longrightarrow> \<not> opens_call (lines ! i) \<Longrightarrow>
   count_loop lines i c = count_loop lines (i + 1) c"
  by (subst count_loop.simps) simp

lemma count_loop_drop:
  "i < length lines \<Longrightarrow> opens_call (lines ! i) \<Longrightarrow>
   count_loop lines i c = count_loop lines (counter_next lines i) (c + 1)"
  by (subst count_loop.simps) (simp add: counter_next_def)

text \<open>Induction along the remover's scan\<close>

lemma remover_scan_induct [consumes 0, case_names stop keep drop]:
  assumes "\<And>i. \<not> i < length lines \<Longrightarrow> P i"
    and "\<And>i. i < length lines \<Longrightarrow> \<not> opens_call (lines ! i) \<Longrightarrow> P (i + 1) \<Longrightarrow> P i"
    and "\<And>i. i < length lines \<Longrightarrow> opens_call (lines ! i) \<Longrightarrow> P (remover_next lines i) \<Longrightarrow> P i"
  shows "P i"
proof (induction "length lines - i" arbitrary: i rule: less_induct)
  case less
  show ?case
  proof (cases "i < length lines")
    case False
    then show ?thesis by (rule assms(1))
  next
    case True
    show ?thesis
    proof (cases "opens_call (lines ! i)")
      case False
      have "P (i + 1)" using True by (intro less) simp
      with True False show ?thesis by (rule assms(2))
    next
      case op: True
      have "P (remover_next lines i)"
        using True remover_next_gt [of i lines] by (intro less) simp
      with True op show ?thesis by (rule assms(3))
    qed
  qed
qed

lemma counter_scan_induct [consumes 0, case_names stop keep drop]:
  assumes "\<And>i. \<not> i < length lines \<Longrightarrow> P i"
    and "\<And>i. i < length lines \<Longrightarrow> \<not> opens_call (lines ! i) \<Longrightarrow> P (i + 1) \<Longrightarrow> P i"
    and "\<And>i. i < length lines \<Longrightarrow> opens_call (lines ! i) \<Longrightarrow> P (counter_next lines i) \<Longrightarrow> P i"
  shows "P i"
proof (induction "length lines - i" arbitrary: i rule: less_induct)
  case less
  show ?case
  proof (cases "i < length lines")
    case False
    then show ?thesis by (rule assms(1))
  next
    case True
    show ?thesis
    proof (cases "opens_call (lines ! i)")
      case False
      have "P (i + 1)" using True by (intro less) simp
      with True False show ?thesis by (rule assms(2))
    next
      case op: True
      have "P (counter_next lines i)"
        using True counter_next_gt [of i lines] by (intro less) simp
      with True op show ?thesis by (rule assms(3))
    qed
  qed
qed

lemma remove_loop_acc:
  "remove_loop lines i acc n =
     (acc @ fst (remove_loop lines i [] 0), n + snd (remove_loop lines i [] 0))"
proof (induction i arbitrary: acc n rule: remover_scan_induct [of lines])
  case (stop i)
  then show ?case by (simp add: remove_loop_done)
next
  case (keep i)
  show ?case
    using keep.hyps keep.IH [of "acc @ [lines ! i]" n] keep.IH [of "[lines ! i]" 0]
    by (simp add: remove_loop_keep)
next
  case (drop i)
  show ?case
    using drop.hyps drop.IH [of acc "n + 1"] drop.IH [of "[]" 1]
    by (simp add: remove_loop_drop)
qed

lemma count_loop_acc: "count_loop lines i c = c + count_loop lines i 0"
proof (induction i arbitrary: c rule: counter_scan_induct [of lines])
  case (stop i)
  then show ?case by (simp add: count_loop_done)
next
  case (keep i)
  show ?case
    using keep.hyps keep.IH [of c] by (simp add: count_loop_keep)
next
  case (drop i)
  show ?case
    using drop.hyps drop.IH [of "c + 1"] drop.IH [of 1] by (simp add: count_loop_drop)
qed

text \<open>Nothing to remove\<close>

lemma remove_loop_no_opener:
  "\<forall>k. i \<le> k \<and> k < length lines \<longrightarrow> \<not> opens_call (lines ! k) \<Longrightarrow>
   remove_loop lines i acc n = (acc @ drop i lines, n)"
proof (induction i arbitrary: acc rule: remover_scan_induct [of lines])
  case (stop i)
  then show ?case by (simp add: remove_loop_done)
next
  case (keep i)
  have "remove_loop lines (i + 1) (acc @ [lines ! i]) n = ((acc @ [lines ! i]) @ drop (i + 1) lines, n)"
    using keep.prems by (intro keep.IH) simp
  with keep.hyps show ?case
    by (simp add: remove_loop_keep Cons_nth_drop_Suc)
next
  case (drop i)
  with drop.prems show ?case by simp
qed

lemma count_loop_no_opener:
  "\<forall>k. i \<le> k \<and> k < length lines \<longrightarrow> \<not> opens_call (lines ! k) \<Longrightarrow>
   count_loop lines i c = c"
proof (induction i rule: counter_scan_induct [of lines])
  case (stop i)
  then show ?case by (simp add: count_loop_done)
next
  case (keep i)
  have "count_loop lines (i + 1) c = c"
    using keep.prems by (intro keep.IH) simp
  with keep.hyps show ?case
    by (simp add: count_loop_keep)
next
  case (drop i)
  with drop.prems show ?case by simp
qed

lemma remove_loop_count_ge: "n \<le> snd (remove_loop lines i acc n)"
proof (induction i arbitrary: acc n rule: remover_scan_induct [of lines])
  case (stop i)
  then show ?case by (simp add: remove_loop_done)
next
  case (keep i)
  then show ?case by (simp add: remove_loop_keep)
next
  case (drop i)
  show ?case using drop.hyps drop.IH [where n = "n + 1" and acc = acc] by (simp add: remove_loop_drop)
qed

lemma count_loop_ge: "c \<le> count_loop lines i c"
proof (induction i arbitrary: c rule: counter_scan_induct [of lines])
  case (stop i)
  then show ?case by (simp add: count_loop_done)
next
  case (keep i)
  then show ?case by (simp add: count_loop_keep)
next
  case (drop i)
  show ?case using drop.hyps drop.IH [of "c + 1"] by (simp add: count_loop_drop)
qed

lemma remove_loop_opener_pos:
  "\<exists>k. i \<le> k \<and> k < length lines \<and> opens_call (lines ! k) \<Longrightarrow>
   n < snd (remove_loop lines i acc n)"
proof (induction i arbitrary: acc rule: remover_scan_induct [of lines])
  case (stop i)
  then show ?case by auto
next
  case (keep i)
  from keep.prems obtain k where k: "i \<le> k" "k < length lines" "opens_call (lines ! k)"
    by blast
  with keep.hyps have "k \<noteq> i" by auto
  with k have "\<exists>k. i + 1 \<le> k \<and> k < length lines \<and> opens_call (lines ! k)"
    by (intro exI [of _ k]) simp
  then have "n < snd (remove_loop lines (i + 1) (acc @ [lines ! i]) n)"
    by (rule keep.IH)
  with keep.hyps show ?case by (simp add: remove_loop_keep)
next
  case (drop i)
  have "n + 1 \<le> snd (remove_loop lines (remover_next lines i) acc (n + 1))"
    by (rule remove_loop_count_ge)
  with drop.hyps show ?case by (simp add: remove_loop_drop)
qed

lemma count_loop_opener_pos:
  "\<exists>k. i \<le> k \<and> k < length lines \<and> opens_call (lines ! k) \<Longrightarrow>
   c < count_loop lines i c"
proof (induction i rule: counter_scan_induct [of lines])
  case (stop i)
  then show ?case by auto
next
  case (keep i)
  from keep.prems obtain k where k: "i \<le> k" "k < length lines" "opens_call (lines ! k)"
    by blast
  with keep.hyps have "k \<noteq> i" by auto
  with k have "\<exists>k. i + 1 \<le> k \<and> k < length lines \<and> opens_call (lines ! k)"
    by (intro exI [of _ k]) simp
  then have "c < count_loop lines (i + 1) c"
    by (rule keep.IH)
  with keep.hyps show ?case by (simp add: count_loop_keep)
next
  case (drop i)
  have "c + 1 \<le> count_loop lines (counter_next lines i) (c + 1)"
    by (rule count_loop_ge)
  with drop.hyps show ?case by (simp add: count_loop_drop)
qed

text \<open>Retained lines\<close>

lemma remove_loop_retained:
  "l \<in> set (fst (remove_loop lines i acc n)) \<Longrightarrow>
   l \<in> set acc \<or> (l \<in> set lines \<and> \<not> opens_call l)"
proof (induction i arbitrary: acc n rule: remover_scan_induct [of lines])
  case (stop i)
  then show ?case by (simp add: remove_loop_done)
next
  case (keep i)
  from keep.prems keep.hyps
  have "l \<in> set (fst (remove_loop lines (i + 1) (acc @ [lines ! i]) n))"
    by (simp add: remove_loop_keep)
  then have "l \<in> set (acc @ [lines ! i]) \<or> (l \<in> set lines \<and> \<not> opens_call l)"
    by (rule keep.IH)
  with keep.hyps show ?case by auto
next
  case (drop i)
  from drop.prems drop.hyps
  have "l \<in> set (fst (remove_loop lines (remover_next lines i) acc (n + 1)))"
    by (simp add: remove_loop_drop)
  then show ?case by (rule drop.IH)
qed

lemma remove_loop_subseq: "subseq (fst (remove_loop lines i [] 0)) (drop i lines)"
proof (induction i rule: remover_scan_induct [of lines])
  case (stop i)
  then show ?case by (simp add: remove_loop_done)
next
  case (keep i)
  have "fst (remove_loop lines i [] 0) = lines ! i # fst (remove_loop lines (i + 1) [] 0)"
    using keep.hyps remove_loop_acc [of lines "i + 1" "[lines ! i]" 0]
    by (simp add: remove_loop_keep)
  moreover have "drop i lines = lines ! i # drop (i + 1) lines"
    using keep.hyps by (simp add: Cons_nth_drop_Suc)
  ultimately show ?case using keep.IH by simp
next
  case (drop i)
  have "fst (remove_loop lines i [] 0) = fst (remove_loop lines (remover_next lines i) [] 0)"
    using drop.hyps remove_loop_acc [of lines "remover_next lines i" "[]" 1]
    by (simp add: remove_loop_drop)
  moreover have "drop i lines =
      take (remover_next lines i - i) (drop i lines) @ drop (remover_next lines i) lines"
    using remover_next_gt [of i lines]
    by (metis append_take_drop_id drop_drop le_add_diff_inverse2 less_imp_le_nat)
  ultimately show ?case
    using drop.IH by (metis list_emb_append2)
qed

subsection \<open>Detector\<close>

lemma strip_prefix_Some: "strip_prefix p s = Some r \<longleftrightarrow> s = p @ r"
  by (induction p s rule: strip_prefix.induct) auto

lemma dropWhile_spaces:
  "\<forall>c \<in> set ws. py_space c \<Longrightarrow> dropWhile py_space (ws @ s) = dropWhile py_space s"
  by (induction ws) auto

lemma not_space_paren: "\<not> py_space (CHR ''('')"
  by (simp add: py_space_def)

lemma not_space_c: "\<not> py_space (CHR ''c'')"
  by (simp add: py_space_def)

lemma after_name_iff:
  "after_name r nm \<longleftrightarrow>
     (\<exists>ws rest. r = nm @ ws @ CHR ''('' # rest \<and> (\<forall>c \<in> set ws. py_space c))"
proof
  assume "after_name r nm"
  then obtain r' rest where r: "r = nm @ r'" and d: "dropWhile py_space r' = CHR ''('' # rest"
    by (auto simp: after_name_def strip_prefix_Some split: option.splits list.splits)
  have "r' = takeWhile py_space r' @ CHR ''('' # rest"
    using d takeWhile_dropWhile_id [of py_space r'] by simp
  moreover have "\<forall>c \<in> set (takeWhile py_space r'). py_space c"
    by (auto dest: set_takeWhileD)
  ultimately show "\<exists>ws rest. r = nm @ ws @ CHR ''('' # rest \<and> (\<forall>c \<in> set ws. py_space c)"
    using r by blast
next
  assume "\<exists>ws rest. r = nm @ ws @ CHR ''('' # rest \<and> (\<forall>c \<in> set ws. py_space c)"
  then obtain ws rest where r: "r = nm @ ws @ CHR ''('' # rest" and ws: "\<forall>c \<in> set ws. py_space c"
    by blast
  have "strip_prefix nm r = Some (ws @ CHR ''('' # rest)"
    using r by (simp add: strip_prefix_Some)
  moreover have "dropWhile py_space (ws @ CHR ''('' # rest) = CHR ''('' # rest"
    using ws by (simp add: dropWhile_spaces not_space_paren)
  ultimately show "after_name r nm"
    by (simp add: after_name_def)
qed

lemma opens_call_iff:
  "opens_call line \<longleftrightarrow>
     (\<exists>ws nm ws' rest. line = ws @ ''console.'' @ nm @ ws' @ CHR ''('' # rest
        \<and> (\<forall>c \<in> set ws. py_space c) \<and> nm \<in> set console_names \<and> (\<forall>c \<in> set ws'. py_space c))"
proof
  assume "opens_call line"
  then obtain r nm where d: "dropWhile py_space line = ''console.'' @ r"
    and nm: "nm \<in> set console_names" and an: "after_name r nm"
    by (auto simp: opens_call_def strip_prefix_Some list_ex_iff split: option.splits)
  from an obtain ws' rest where r: "r = nm @ ws' @ CHR ''('' # rest"
    and ws': "\<forall>c \<in> set ws'. py_space c"
    by (auto simp: after_name_iff)
  have "line = takeWhile py_space line @ ''console.'' @ r"
    using d takeWhile_dropWhile_id [of py_space line] by simp
  moreover have "\<forall>c \<in> set (takeWhile py_space line). py_space c"
    by (auto dest: set_takeWhileD)
  ultimately show "\<exists>ws nm ws' rest. line = ws @ ''console.'' @ nm @ ws' @ CHR ''('' # rest
        \<and> (\<forall>c \<in> set ws. py_space c) \<and> nm \<in> set console_names \<and> (\<forall>c \<in> set ws'. py_space c)"
    using r nm ws' by blast
next
  assume "\<exists>ws nm ws' rest. line = ws @ ''console.'' @ nm @ ws' @ CHR ''('' # rest
        \<and> (\<forall>c \<in> set ws. py_space c) \<and> nm \<in> set console_names \<and> (\<forall>c \<in> set ws'. py_space c)"
  then obtain ws nm ws' rest where line: "line = ws @ ''console.'' @ nm @ ws' @ CHR ''('' # rest"
    and ws: "\<forall>c \<in> set ws. py_space c" and nm: "nm \<in> set console_names"
    and ws': "\<forall>c \<in> set ws'. py_space c"
    by blast
  have "dropWhile py_space line = ''console.'' @ nm @ ws' @ CHR ''('' # rest"
    unfolding line using ws by (simp add: dropWhile_spaces not_space_c)
  then have "strip_prefix ''console.'' (dropWhile py_space line) = Some (nm @ ws' @ CHR ''('' # rest)"
    by (simp only: strip_prefix_Some)
  moreover have "after_name (nm @ ws' @ CHR ''('' # rest) nm"
    using ws' by (auto simp: after_name_iff)
  ultimately show "opens_call line"
    using nm by (auto simp: opens_call_def list_ex_iff)
qed

lemma opens_call_has_paren: "opens_call line \<Longrightarrow> CHR ''('' \<in> set line"
  by (auto simp: opens_call_iff)

lemma opens_call_Nil: "\<not> opens_call []"
  by (simp add: opens_call_def)

subsection \<open>The inner loop stops at the first line where the depth is no longer positive\<close>

lemma skip_span_stop: "\<not> (i < length lines \<and> 0 < depth) \<Longrightarrow> skip_span lines i depth = i"
  by (subst skip_span.simps) auto

lemma skip_span_step:
  "i < length lines \<Longrightarrow> 0 < depth \<Longrightarrow>
   skip_span lines i depth = skip_span lines (i + 1) (depth + paren_balance (lines ! i))"
  by (subst skip_span.simps) simp

lemma skip_span_find:
  "i \<le> length lines \<Longrightarrow> 0 < depth \<Longrightarrow>
   skip_span lines i depth =
     (case find (\<lambda>j. depth + sum_list (map (\<lambda>k. paren_balance (lines ! k)) [i..<Suc j]) \<le> 0)
             [i..<length lines] of
        Some j \<Rightarrow> Suc j
      | None \<Rightarrow> length lines)"
proof (induction lines i depth rule: skip_span.induct)
  case (1 lines i depth)
  let ?bal = "\<lambda>k. paren_balance (lines ! k)"
  show ?case
  proof (cases "i < length lines")
    case False
    with "1.prems" have "i = length lines" by simp
    then show ?thesis by (simp add: skip_span_stop)
  next
    case True
    have upt: "[i..<length lines] = i # [Suc i..<length lines]"
      using True by (simp add: upt_conv_Cons)
    show ?thesis
    proof (cases "depth + ?bal i \<le> 0")
      case le: True
      then have "skip_span lines (i + 1) (depth + ?bal i) = i + 1"
        by (simp add: skip_span_stop)
      with True "1.prems" le show ?thesis
        by (simp add: skip_span_step upt)
    next
      case gt: False
      have ih: "skip_span lines (i + 1) (depth + ?bal i) =
          (case find (\<lambda>j. depth + ?bal i + sum_list (map ?bal [i + 1..<Suc j]) \<le> 0)
                  [i + 1..<length lines] of
             Some j \<Rightarrow> Suc j | None \<Rightarrow> length lines)"
        using True "1.prems" gt by (intro "1.IH") auto
      have cong: "find (\<lambda>j. depth + sum_list (map ?bal [i..<Suc j]) \<le> 0) [Suc i..<length lines]
          = find (\<lambda>j. depth + ?bal i + sum_list (map ?bal [i + 1..<Suc j]) \<le> 0) [Suc i..<length lines]"
        by (rule find_cong) (auto simp: upt_conv_Cons)
      show ?thesis
        using True "1.prems" gt ih cong by (simp add: skip_span_step upt)
    qed
  qed
qed

lemma remover_next_spec:
  assumes "i < length lines" and "opens_call (lines ! i)"
  shows "remover_next lines i = Suc (spec_span_last lines i)"
proof -
  let ?l = "lines ! i"
  have paren: "CHR ''('' \<in> set ?l"
    using assms(2) by (rule opens_call_has_paren)
  then have "count_list ?l (CHR ''('') \<noteq> 0"
    by (simp add: count_list_0_iff)
  then have pos: "0 < open_count ?l"
    by (simp add: open_count_def)
  show ?thesis
  proof (cases "CHR '';'' \<in> set ?l \<or> open_count ?l \<le> close_count ?l")
    case True
    have "open_count ?l \<le> close_count ?l \<Longrightarrow> CHR '')'' \<in> set ?l"
      using pos count_list_0_iff [of ?l "CHR '')''"] by (auto simp: close_count_def)
    with True show ?thesis
      by (auto simp: remover_next_def spec_span_last_def)
  next
    case False
    then have bal: "0 < paren_balance ?l"
      by (simp add: paren_balance_def)
    have upt: "[i..<length lines] = i # [Suc i..<length lines]"
      using assms(1) by (simp add: upt_conv_Cons)
    have first: "\<not> depth_through lines i i \<le> 0"
      using bal by (simp add: depth_through_def)
    define P where "P = (\<lambda>j. depth_through lines i j \<le> 0)"
    define Q where "Q = (\<lambda>j. paren_balance ?l
        + sum_list (map (\<lambda>k. paren_balance (lines ! k)) [i + 1..<Suc j]) \<le> 0)"
    have cong: "find P [Suc i..<length lines] = find Q [Suc i..<length lines]"
      unfolding P_def Q_def
      by (rule find_cong) (auto simp: depth_through_def upt_conv_Cons)
    have "skip_span lines (i + 1) (paren_balance ?l) =
        (case find Q [i + 1..<length lines] of Some j \<Rightarrow> Suc j | None \<Rightarrow> length lines)"
      unfolding Q_def using assms(1) bal by (intro skip_span_find) auto
    moreover have "remover_next lines i = skip_span lines (i + 1) (paren_balance ?l)"
      using False by (auto simp: remover_next_def)
    moreover have "spec_span_last lines i =
        (case find P [Suc i..<length lines] of Some j \<Rightarrow> j | None \<Rightarrow> length lines - 1)"
      using False first by (simp add: spec_span_last_def upt P_def)
    ultimately show ?thesis
      using assms(1) cong by (cases "find Q [Suc i..<length lines]") simp_all
  qed
qed

subsection \<open>The recorded spans\<close>

lemma removed_spans_stop: "\<not> i < length lines \<Longrightarrow> removed_spans lines i = []"
  by (subst removed_spans.simps) simp

lemma removed_spans_keep:
  "i < length lines \<Longrightarrow> \<not> opens_call (lines ! i) \<Longrightarrow>
   removed_spans lines i = removed_spans lines (i + 1)"
  by (subst removed_spans.simps) simp

lemma removed_spans_drop:
  "i < length lines \<Longrightarrow> opens_call (lines ! i) \<Longrightarrow>
   removed_spans lines i =
     (i, remover_next lines i - 1) # removed_spans lines (remover_next lines i)"
  by (subst removed_spans.simps) (simp add: remover_next_def)

lemma removed_spans_bounds:
  "sp \<in> set (removed_spans lines i) \<Longrightarrow>
   i \<le> fst sp \<and> fst sp \<le> snd sp \<and> snd sp < length lines \<and> opens_call (lines ! fst sp)"
proof (induction i rule: remover_scan_induct [of lines])
  case (stop i)
  then show ?case by (simp add: removed_spans_stop)
next
  case (keep i)
  then show ?case by (simp add: removed_spans_keep)
next
  case (drop i)
  from drop.prems drop.hyps
  consider "sp = (i, remover_next lines i - 1)" | "sp \<in> set (removed_spans lines (remover_next lines i))"
    by (auto simp: removed_spans_drop)
  then show ?case
  proof cases
    case 1
    with drop.hyps remover_next_gt [of i lines] remover_next_le [of i lines]
    show ?thesis by auto
  next
    case 2
    then have "remover_next lines i \<le> fst sp \<and> fst sp \<le> snd sp \<and> snd sp < length lines
        \<and> opens_call (lines ! fst sp)"
      by (rule drop.IH)
    with remover_next_gt [of i lines] show ?thesis by auto
  qed
qed

lemma removed_spans_sorted: "sorted_wrt (\<lambda>a b. snd a < fst b) (removed_spans lines i)"
proof (induction i rule: remover_scan_induct [of lines])
  case (stop i)
  then show ?case by (simp add: removed_spans_stop)
next
  case (keep i)
  then show ?case by (simp add: removed_spans_keep)
next
  case (drop i)
  have "\<forall>b \<in> set (removed_spans lines (remover_next lines i)). remover_next lines i - 1 < fst b"
    using removed_spans_bounds [of _ lines "remover_next lines i"] remover_next_gt [of i lines]
    by fastforce
  with drop show ?case by (simp add: removed_spans_drop)
qed

lemma remove_loop_spans_count:
  "snd (remove_loop lines i [] 0) = int (length (removed_spans lines i))"
proof (induction i rule: remover_scan_induct [of lines])
  case (stop i)
  then show ?case by (simp add: removed_spans_stop remove_loop_done)
next
  case (keep i)
  then show ?case
    using remove_loop_acc [of lines "i + 1" "[lines ! i]" 0]
    by (simp add: removed_spans_keep remove_loop_keep)
next
  case (drop i)
  then show ?case
    using remove_loop_acc [of lines "remover_next lines i" "[]" 1]
    by (simp add: removed_spans_drop remove_loop_drop)
qed

lemma remove_loop_spans_lines:
  "fst (remove_loop lines i [] 0) =
     map (\<lambda>k. lines ! k)
       (filter (\<lambda>k. \<not> list_ex (in_span k) (removed_spans lines i)) [i..<length lines])"
proof (induction i rule: remover_scan_induct [of lines])
  case (stop i)
  then show ?case by (simp add: remove_loop_done)
next
  case (keep i)
  have "\<not> list_ex (in_span i) (removed_spans lines (i + 1))"
    using removed_spans_bounds [of _ lines "i + 1"] by (fastforce simp: list_ex_iff in_span_def)
  moreover have "[i..<length lines] = i # [i + 1..<length lines]"
    using keep.hyps by (simp add: upt_conv_Cons)
  moreover have "fst (remove_loop lines i [] 0) = lines ! i # fst (remove_loop lines (i + 1) [] 0)"
    using keep.hyps remove_loop_acc [of lines "i + 1" "[lines ! i]" 0]
    by (simp add: remove_loop_keep)
  ultimately show ?case
    using keep.hyps keep.IH by (simp add: removed_spans_keep)
next
  case (drop i)
  let ?n = "remover_next lines i"
  have gt: "i < ?n" by (rule remover_next_gt)
  have le: "?n \<le> length lines" using drop.hyps by (intro remover_next_le)
  have upt: "[i..<length lines] = [i..<?n] @ [?n..<length lines]"
    using gt le by (metis le_iff_add less_imp_le_nat upt_add_eq_append)
  have sp: "removed_spans lines i = (i, ?n - 1) # removed_spans lines ?n"
    using drop.hyps by (rule removed_spans_drop)
  have inside: "filter (\<lambda>k. \<not> list_ex (in_span k) (removed_spans lines i)) [i..<?n] = []"
    using gt by (auto simp: sp in_span_def filter_empty_conv)
  have outside: "filter (\<lambda>k. \<not> list_ex (in_span k) (removed_spans lines i)) [?n..<length lines]
      = filter (\<lambda>k. \<not> list_ex (in_span k) (removed_spans lines ?n)) [?n..<length lines]"
    using gt by (intro filter_cong) (auto simp: sp in_span_def)
  have "fst (remove_loop lines i [] 0) = fst (remove_loop lines ?n [] 0)"
    using drop.hyps remove_loop_acc [of lines ?n "[]" 1]
    by (simp add: remove_loop_drop)
  then show ?case
    using drop.IH by (simp add: upt inside outside)
qed

subsection \<open>Whole-text facts\<close>

lemma remove_lines_retained:
  "l \<in> set (fst (remove_lines lines)) \<Longrightarrow> l \<in> set lines \<and> \<not> opens_call l"
  using remove_loop_retained [of l lines 0 "[]" 0] by (simp add: remove_lines_def)

lemma remove_lines_no_opener:
  "\<forall>l \<in> set lines. \<not> opens_call l \<Longrightarrow> remove_lines lines = (lines, 0)"
  using remove_loop_no_opener [of 0 lines "[]" 0] by (simp add: remove_lines_def)

lemma count_loop_no_opener_all:
  "\<forall>l \<in> set lines. \<not> opens_call l \<Longrightarrow> count_loop lines 0 0 = 0"
  using count_loop_no_opener [of 0 lines 0] by simp

lemma remove_lines_zero_iff:
  "snd (remove_lines lines) = 0 \<longleftrightarrow> (\<forall>l \<in> set lines. \<not> opens_call l)"
proof
  assume z: "snd (remove_lines lines) = 0"
  show "\<forall>l \<in> set lines. \<not> opens_call l"
  proof
    fix l assume "l \<in> set lines"
    then obtain k where k: "k < length lines" "lines ! k = l"
      by (auto simp: in_set_conv_nth)
    show "\<not> opens_call l"
    proof
      assume "opens_call l"
      with k have "\<exists>k. 0 \<le> k \<and> k < length lines \<and> opens_call (lines ! k)" by auto
      then have "0 < snd (remove_loop lines 0 [] 0)" by (rule remove_loop_opener_pos)
      with z show False by (simp add: remove_lines_def)
    qed
  qed
next
  assume "\<forall>l \<in> set lines. \<not> opens_call l"
  then show "snd (remove_lines lines) = 0" by (simp add: remove_lines_no_opener)
qed

lemma count_loop_zero_iff:
  "count_loop lines 0 0 = 0 \<longleftrightarrow> (\<forall>l \<in> set lines. \<not> opens_call l)"
proof
  assume z: "count_loop lines 0 0 = 0"
  show "\<forall>l \<in> set lines. \<not> opens_call l"
  proof
    fix l assume "l \<in> set lines"
    then obtain k where k: "k < length lines" "lines ! k = l"
      by (auto simp: in_set_conv_nth)
    show "\<not> opens_call l"
    proof
      assume "opens_call l"
      with k have "\<exists>k. 0 \<le> k \<and> k < length lines \<and> opens_call (lines ! k)" by auto
      then have "0 < count_loop lines 0 0" by (rule count_loop_opener_pos)
      with z show False by simp
    qed
  qed
next
  assume "\<forall>l \<in> set lines. \<not> opens_call l"
  then show "count_loop lines 0 0 = 0" by (rule count_loop_no_opener_all)
qed

text \<open>The lines of the text the remover returns: none of them opens a call.\<close>

lemma output_lines_no_opener:
  "l \<in> set (split_nl (fst (remove_console_statements content))) \<Longrightarrow> \<not> opens_call l"
proof -
  assume l: "l \<in> set (split_nl (fst (remove_console_statements content)))"
  let ?kept = "fst (remove_lines (split_nl content))"
  have out: "fst (remove_console_statements content) = join_nl ?kept"
    by (simp add: remove_console_statements_def split: prod.splits)
  show "\<not> opens_call l"
  proof (cases "?kept = []")
    case True
    with l out have "l = []" by simp
    then show ?thesis by (simp add: opens_call_Nil)
  next
    case False
    have "\<forall>x \<in> set ?kept. nl \<notin> set x"
      using remove_lines_retained split_nl_no_nl by blast
    with False have "split_nl (join_nl ?kept) = ?kept" by (rule split_join_nl)
    with l out have "l \<in> set ?kept" by simp
    then show ?thesis using remove_lines_retained by blast
  qed
qed

lemma count_remove_zero: "count_console_statements (fst (remove_console_statements content)) = 0"
  unfolding count_console_statements_def
  by (rule count_loop_no_opener_all) (simp add: output_lines_no_opener)

lemma remove_remove:
  "remove_console_statements (fst (remove_console_statements content))
     = (fst (remove_console_statements content), 0)"
proof -
  let ?out = "fst (remove_console_statements content)"
  have "remove_lines (split_nl ?out) = (split_nl ?out, 0)"
    by (rule remove_lines_no_opener) (simp add: output_lines_no_opener)
  then show ?thesis
    by (simp add: remove_console_statements_def [of ?out] join_split_nl)
qed

lemma zero_iff_zero:
  "snd (remove_console_statements content) = 0 \<longleftrightarrow> count_console_statements content = 0"
proof -
  have "snd (remove_console_statements content) = snd (remove_lines (split_nl content))"
    by (simp add: remove_console_statements_def split: prod.splits)
  then show ?thesis
    by (simp add: remove_lines_zero_iff count_console_statements_def count_loop_zero_iff)
qed

lemma count_nonneg: "0 \<le> count_console_statements content"
  unfolding count_console_statements_def by (rule count_loop_ge)

lemma removed_nonneg: "0 \<le> snd (remove_console_statements content)"
  using remove_loop_count_ge [of 0 "split_nl content" 0 "[]"]
  by (auto simp: remove_console_statements_def remove_lines_def split: prod.splits)

text \<open>The two passes agree where their single-line tests agree\<close>

lemma counts_agree:
  assumes "\<forall>l \<in> set lines. opens_call l \<longrightarrow>
      (CHR '')'' \<notin> set l) =
      (\<not> (CHR '';'' \<in> set l \<or> (CHR '')'' \<in> set l \<and> open_count l \<le> close_count l)))"
  shows "count_loop lines i 0 = snd (remove_loop lines i [] 0)"
proof (induction i rule: remover_scan_induct [of lines])
  case (stop i)
  then show ?case by (simp add: count_loop_done remove_loop_done)
next
  case (keep i)
  then show ?case
    using remove_loop_acc [of lines "i + 1" "[lines ! i]" 0]
    by (simp add: count_loop_keep remove_loop_keep)
next
  case (drop i)
  have "lines ! i \<in> set lines" using drop.hyps by simp
  with assms drop.hyps have "counter_next lines i = remover_next lines i"
    using opens_call_has_paren [of "lines ! i"]
    by (auto simp: counter_next_def remover_next_def)
  with drop show ?case
    using remove_loop_acc [of lines "remover_next lines i" "[]" 1]
      count_loop_acc [of lines "remover_next lines i" 1]
    by (simp add: count_loop_drop remove_loop_drop)
qed

lemma fst_remove_console_statements:
  "fst (remove_console_statements content) = join_nl (fst (remove_lines (split_nl content)))"
  by (simp add: remove_console_statements_def split: prod.splits)

lemma snd_remove_console_statements:
  "snd (remove_console_statements content) = snd (remove_lines (split_nl content))"
  by (simp add: remove_console_statements_def split: prod.splits)

lemma removed_spans_all_bounds:
  "list_all (\<lambda>sp. fst sp \<le> snd sp \<and> snd sp < length lines) (removed_spans lines i)"
  using removed_spans_bounds [of _ lines i] by (auto simp: list_all_iff)

subsection \<open>The batch runner\<close>

lemma process_file_read_fails:
  "read_text d file_path = Inl e \<Longrightarrow>
   process_file file_path d
     = ((path_name file_path, 0, - 1), [Error_processing (path_name file_path) e], d)"
  by (simp add: process_file_def)

lemma process_file_none_found:
  "read_text d file_path = Inr content \<Longrightarrow> count_console_statements content = 0 \<Longrightarrow>
   process_file file_path d = ((path_name file_path, 0, 0), [], d)"
  by (simp add: process_file_def)

lemma process_file_write_fails:
  "read_text d file_path = Inr content \<Longrightarrow> count_console_statements content \<noteq> 0 \<Longrightarrow>
   write_text d file_path (fst (remove_console_statements content)) = (Some e, d') \<Longrightarrow>
   process_file file_path d
     = ((path_name file_path, 0, - 1), [Error_processing (path_name file_path) e], d')"
  by (cases "remove_console_statements content") (simp add: process_file_def)

lemma process_file_written:
  "read_text d file_path = Inr content \<Longrightarrow> count_console_statements content \<noteq> 0 \<Longrightarrow>
   write_text d file_path (fst (remove_console_statements content)) = (None, d') \<Longrightarrow>
   process_file file_path d
     = ((path_name file_path, count_console_statements content,
         snd (remove_console_statements content)), [], d')"
  by (cases "remove_console_statements content") (simp add: process_file_def)

lemma write_text_fault:
  "faults d file_path \<noteq> No_fault \<Longrightarrow> \<exists>e d'. write_text d file_path s = (Some e, d')"
  by (cases "faults d file_path") (simp_all add: write_text_def)

lemma write_text_no_fault:
  "faults d file_path = No_fault \<Longrightarrow>
   write_text d file_path s = (None, d\<lparr>files := (files d)(file_path \<mapsto> s)\<rparr>)"
  by (simp add: write_text_def)

lemma process_file_fails:
  assumes "io_fails d file_path"
  shows "\<exists>e d'. process_file file_path d
     = ((path_name file_path, 0, - 1), [Error_processing (path_name file_path) e], d')"
proof (cases "read_text d file_path")
  case (Inl e)
  then show ?thesis by (auto simp: process_file_read_fails)
next
  case (Inr content)
  with assms have c: "count_console_statements content \<noteq> 0" and f: "faults d file_path \<noteq> No_fault"
    by (simp_all add: io_fails_def)
  from f obtain e d' where "write_text d file_path (fst (remove_console_statements content)) = (Some e, d')"
    using write_text_fault by blast
  with Inr c show ?thesis by (auto simp: process_file_write_fails)
qed

lemma removed_pos:
  "count_console_statements content \<noteq> 0 \<Longrightarrow> 0 < snd (remove_console_statements content)"
  using zero_iff_zero [of content] removed_nonneg [of content] by simp

lemma process_file_sentinel_iff:
  "snd (snd (fst (process_file file_path d))) = - 1 \<longleftrightarrow> io_fails d file_path"
proof
  assume "io_fails d file_path"
  then show "snd (snd (fst (process_file file_path d))) = - 1"
    using process_file_fails by fastforce
next
  assume s: "snd (snd (fst (process_file file_path d))) = - 1"
  show "io_fails d file_path"
  proof (cases "read_text d file_path")
    case (Inl e)
    then show ?thesis by (simp add: io_fails_def)
  next
    case (Inr content)
    show ?thesis
    proof (cases "count_console_statements content = 0")
      case True
      with Inr s show ?thesis by (simp add: process_file_none_found)
    next
      case False
      show ?thesis
      proof (cases "faults d file_path = No_fault")
        case True
        with Inr False s removed_pos [of content] show ?thesis
          by (simp add: process_file_written write_text_no_fault)
      next
        case nf: False
        with Inr False show ?thesis by (simp add: io_fails_def)
      qed
    qed
  qed
qed

lemma process_file_success:
  assumes "\<not> io_fails d file_path"
  shows "(\<exists>oc rc. fst (process_file file_path d) = (path_name file_path, oc, rc) \<and> 0 < oc \<and> 0 < rc)
       \<or> fst (process_file file_path d) = (path_name file_path, 0, 0)"
proof (cases "read_text d file_path")
  case (Inl e)
  with assms show ?thesis by (simp add: io_fails_def)
next
  case (Inr content)
  show ?thesis
  proof (cases "count_console_statements content = 0")
    case True
    with Inr show ?thesis by (simp add: process_file_none_found)
  next
    case False
    with assms Inr have nf: "faults d file_path = No_fault" by (simp add: io_fails_def)
    have "0 < count_console_statements content"
      using False count_nonneg [of content] by simp
    with Inr False nf removed_pos [of content] show ?thesis
      by (simp add: process_file_written write_text_no_fault)
  qed
qed

lemma main_step_fails:
  assumes "process_file f (dsk st)
     = ((path_name f, 0, - 1), [Error_processing (path_name f) e], d')"
  shows "main_step st f
     = st\<lparr>out := out st @ [Error_processing (path_name f) e, Error_line (path_name f)], dsk := d'\<rparr>"
  using assms by (simp add: main_step_def)

lemma main_loop_append:
  "main_loop st (pre @ f # post) = main_loop (main_step (main_loop st pre) f) post"
  by (simp add: main_loop_def)

lemma main_step_last:
  "last (out (main_step st f)) = Error_line (path_name f) \<longleftrightarrow>
   snd (snd (fst (process_file f (dsk st)))) = - 1"
proof (cases "io_fails (dsk st) f")
  case True
  then obtain e d' where p: "process_file f (dsk st)
     = ((path_name f, 0, - 1), [Error_processing (path_name f) e], d')"
    using process_file_fails by blast
  then show ?thesis by (simp add: main_step_fails)
next
  case False
  then have ns: "snd (snd (fst (process_file f (dsk st)))) \<noteq> - 1"
    by (simp add: process_file_sentinel_iff)
  obtain r pr d' where p: "process_file f (dsk st) = (r, pr, d')"
    by (cases "process_file f (dsk st)") auto
  from process_file_success [OF False] p
  consider oc rc where "r = (path_name f, oc, rc)" "0 < oc" "0 < rc" | "r = (path_name f, 0, 0)"
    by auto
  then have "last (out (main_step st f)) \<noteq> Error_line (path_name f)"
    using p by cases (simp_all add: main_step_def)
  with ns show ?thesis by simp
qed

text \<open>Invariant of the batch loop.\<close>

lemma main_step_tally: "tally_ok st \<Longrightarrow> tally_ok (main_step st f)"
  by (auto simp: tally_ok_def main_step_def split: prod.splits)

lemma main_loop_tally: "tally_ok st \<Longrightarrow> tally_ok (main_loop st fs)"
  unfolding main_loop_def by (induction fs arbitrary: st) (simp_all add: main_step_tally)

section \<open>The claims\<close>

text \<open>
  C1. The claim: for every input text \<^verbatim>\<open>count_console_statements\<close> equals the removed
  count of \<^verbatim>\<open>remove_console_statements\<close>. The two passes test for a one-line statement
  differently, and on the text below the counter reports 2 where the remover reports 1:
  the first line holds a closing parenthesis, so the counter takes it for a one-line
  statement and counts the second line again, while the remover sees more opening than
  closing parentheses and consumes the second line as part of the span.
\<close>

theorem counter_remover_disagree:
  "count_console_statements (''console.log(fmt(a),'' @ nl # ''console.log(b));'') = 2
   \<and> snd (remove_console_statements (''console.log(fmt(a),'' @ nl # ''console.log(b));'')) = 1"
  by code_simp

text \<open>In the other direction: a semicolon on an opening line without a closing parenthesis.\<close>

lemma counter_remover_disagree_semicolon:
  "count_console_statements (''console.log(`a;`,'' @ nl # ''console.warn(b),'' @ nl # ''c);'') = 1
   \<and> remove_console_statements (''console.log(`a;`,'' @ nl # ''console.warn(b),'' @ nl # ''c);'') = (''c);'', 2)"
  by code_simp

text \<open>
  C2. The remover is idempotent: for every input text, running
  \<^verbatim>\<open>remove_console_statements\<close> on its own output returns that output unchanged, with a
  removed count of 0.
\<close>

theorem remover_idempotent:
  "remove_console_statements (fst (remove_console_statements content))
     = (fst (remove_console_statements content), 0)"
  by (rule remove_remove)

text \<open>
  C3. For every input text, well formed or not, \<^verbatim>\<open>count_console_statements\<close> of the new
  content returned by \<^verbatim>\<open>remove_console_statements\<close> is 0.
\<close>

theorem count_after_removal_zero:
  "count_console_statements (fst (remove_console_statements content)) = 0"
  by (rule count_remove_zero)

text \<open>
  C4, as stated, fails twice. Read with the five names \<^verbatim>\<open>log\<close>, \<^verbatim>\<open>error\<close>, \<^verbatim>\<open>warn\<close>,
  \<^verbatim>\<open>debug\<close>, \<^verbatim>\<open>info\<close> as the identifiers, the line \<^verbatim>\<open>log(1)\<close> opens a call, and the
  detector does not match it: the pattern asks for \<^verbatim>\<open>console.\<close> before the name. And a
  line with an unrelated name, which the detector does not match, is removed all the same
  when it lies inside the span of a statement opened on an earlier line.
\<close>

theorem detector_claim_counterexample:
  "spec_detects ''log(1)'' \<and> \<not> opens_call ''log(1)''
   \<and> \<not> opens_call ''  catalog(x)''
   \<and> remove_console_statements
        (''console.log('' @ nl # ''  catalog(x)'' @ nl # '');'' @ nl # ''done()'') = (''done()'', 1)"
  by code_simp

text \<open>
  C4, amended. The detector matches a line exactly when the line is white space, then
  \<^verbatim>\<open>console.\<close>, then one of the five names, then white space, then an opening parenthesis,
  then anything. The remover returns the lines at the positions outside the removed spans,
  in order. The position of a line that the detector does not match is among these
  retained positions unless it lies inside the span of a statement that a detected line
  opened strictly before it, and then it is not: the line at that position is dropped
  with the span.
\<close>

theorem detector_exact:
  "(opens_call line \<longleftrightarrow>
      (\<exists>ws nm ws' rest. line = ws @ ''console.'' @ nm @ ws' @ CHR ''('' # rest
        \<and> (\<forall>c \<in> set ws. py_space c) \<and> nm \<in> set console_names \<and> (\<forall>c \<in> set ws'. py_space c)))
   \<and> fst (remove_lines lines)
       = map (\<lambda>j. lines ! j)
           (filter (\<lambda>j. \<not> list_ex (in_span j) (removed_spans lines 0)) [0..<length lines])
   \<and> (k < length lines \<and> \<not> opens_call (lines ! k) \<longrightarrow>
        (if \<exists>sp \<in> set (removed_spans lines 0).
               fst sp < k \<and> k \<le> snd sp \<and> opens_call (lines ! fst sp)
         then k \<notin> set (filter (\<lambda>j. \<not> list_ex (in_span j) (removed_spans lines 0))
                        [0..<length lines])
         else k \<in> set (filter (\<lambda>j. \<not> list_ex (in_span j) (removed_spans lines 0))
                        [0..<length lines])))"
proof (intro conjI impI)
  show "opens_call line \<longleftrightarrow>
      (\<exists>ws nm ws' rest. line = ws @ ''console.'' @ nm @ ws' @ CHR ''('' # rest
        \<and> (\<forall>c \<in> set ws. py_space c) \<and> nm \<in> set console_names \<and> (\<forall>c \<in> set ws'. py_space c))"
    by (rule opens_call_iff)
next
  show "fst (remove_lines lines)
       = map (\<lambda>j. lines ! j)
           (filter (\<lambda>j. \<not> list_ex (in_span j) (removed_spans lines 0)) [0..<length lines])"
    unfolding remove_lines_def by (rule remove_loop_spans_lines)
next
  assume k: "k < length lines \<and> \<not> opens_call (lines ! k)"
  let ?spans = "removed_spans lines 0"
  let ?kept = "filter (\<lambda>j. \<not> list_ex (in_span j) ?spans) [0..<length lines]"
  have kept: "k \<in> set ?kept \<longleftrightarrow> \<not> list_ex (in_span k) ?spans"
    using k by simp
  have "list_ex (in_span k) ?spans \<longleftrightarrow>
      (\<exists>sp \<in> set ?spans. fst sp < k \<and> k \<le> snd sp \<and> opens_call (lines ! fst sp))"
  proof
    assume "list_ex (in_span k) ?spans"
    then obtain sp where sp: "sp \<in> set ?spans" "fst sp \<le> k" "k \<le> snd sp"
      by (auto simp: list_ex_iff in_span_def)
    from sp(1) have op: "opens_call (lines ! fst sp)"
      using removed_spans_bounds by blast
    with k have "fst sp \<noteq> k" by auto
    with sp op show "\<exists>sp \<in> set ?spans. fst sp < k \<and> k \<le> snd sp \<and> opens_call (lines ! fst sp)"
      by force
  next
    assume "\<exists>sp \<in> set ?spans. fst sp < k \<and> k \<le> snd sp \<and> opens_call (lines ! fst sp)"
    then obtain sp where "sp \<in> set ?spans" "fst sp < k" "k \<le> snd sp"
      by blast
    then have "sp \<in> set ?spans \<and> in_span k sp"
      by (simp add: in_span_def)
    then show "list_ex (in_span k) ?spans"
      unfolding list_ex_iff by blast
  qed
  with kept show "if \<exists>sp \<in> set ?spans. fst sp < k \<and> k \<le> snd sp \<and> opens_call (lines ! fst sp)
         then k \<notin> set ?kept else k \<in> set ?kept"
    by (cases "\<exists>sp \<in> set ?spans. fst sp < k \<and> k \<le> snd sp \<and> opens_call (lines ! fst sp)")
       (simp_all only: if_True if_False simp_thms)
qed

theorem detector_exact_witness:
  "(\<exists>ws nm ws' rest. ''  console.warn (x'' = ws @ ''console.'' @ nm @ ws' @ CHR ''('' # rest
        \<and> (\<forall>c \<in> set ws. py_space c) \<and> nm \<in> set console_names \<and> (\<forall>c \<in> set ws'. py_space c))
   \<and> fst (remove_lines [''}'', ''console.log('', ''}'', '');''])
       = map (\<lambda>j. [''}'', ''console.log('', ''}'', '');''] ! j)
           (filter (\<lambda>j. \<not> list_ex (in_span j)
              (removed_spans [''}'', ''console.log('', ''}'', '');''] 0)) [0..<4])
   \<and> fst (remove_lines [''}'', ''console.log('', ''}'', '');'']) = [''}'']
   \<and> removed_spans [''}'', ''console.log('', ''}'', '');''] 0 = [(1, 3)]
   \<and> (2::nat) < length [''}'', ''console.log('', ''}'', '');'']
   \<and> \<not> opens_call ([''}'', ''console.log('', ''}'', '');''] ! 2)
   \<and> 2 \<notin> set (filter (\<lambda>j. \<not> list_ex (in_span j)
              (removed_spans [''}'', ''console.log('', ''}'', '');''] 0)) [0..<4])
   \<and> (0::nat) < length [''}'', ''console.log('', ''}'', '');'']
   \<and> \<not> opens_call ([''}'', ''console.log('', ''}'', '');''] ! 0)
   \<and> 0 \<in> set (filter (\<lambda>j. \<not> list_ex (in_span j)
              (removed_spans [''}'', ''console.log('', ''}'', '');''] 0)) [0..<4])"
proof -
  let ?lines = "[''}'', ''console.log('', ''}'', '');'']"
  let ?spans = "removed_spans ?lines 0"
  let ?kept = "filter (\<lambda>j. \<not> list_ex (in_span j) ?spans) [0..<length ?lines]"
  have len: "length ?lines = 4" by simp
  have a: "opens_call ''  console.warn (x''" by code_simp
  have sp: "?spans = [(1, 3)]" by code_simp
  have out: "fst (remove_lines ?lines) = [''}'']" by code_simp
  have b2: "(2::nat) < length ?lines" by simp
  have c2: "\<not> opens_call (?lines ! 2)" by code_simp
  have b0: "(0::nat) < length ?lines" by simp
  have c0: "\<not> opens_call (?lines ! 0)" by code_simp
  have in2: "\<exists>sp \<in> set ?spans. fst sp < 2 \<and> 2 \<le> snd sp \<and> opens_call (?lines ! fst sp)"
  proof -
    have "opens_call (?lines ! 1)" by code_simp
    then show ?thesis unfolding sp by simp
  qed
  have in0: "\<not> (\<exists>sp \<in> set ?spans. fst sp < 0 \<and> 0 \<le> snd sp \<and> opens_call (?lines ! fst sp))"
    by simp
  note th2 = detector_exact [of "''  console.warn (x''" ?lines 2]
  note th0 = detector_exact [of "''  console.warn (x''" ?lines 0]
  from th2 a have ex: "\<exists>ws nm ws' rest. ''  console.warn (x'' = ws @ ''console.'' @ nm @ ws' @ CHR ''('' # rest
        \<and> (\<forall>c \<in> set ws. py_space c) \<and> nm \<in> set console_names \<and> (\<forall>c \<in> set ws'. py_space c)"
    by (elim conjE iffE) blast
  from th2 have eq: "fst (remove_lines ?lines) = map (\<lambda>j. ?lines ! j) ?kept"
    by (elim conjE)
  from th2 b2 c2 have "if \<exists>sp \<in> set ?spans. fst sp < 2 \<and> 2 \<le> snd sp \<and> opens_call (?lines ! fst sp)
         then 2 \<notin> set ?kept else 2 \<in> set ?kept"
    by (elim conjE) blast
  with in2 have k2: "2 \<notin> set ?kept" by (simp only: if_True simp_thms)
  from th0 b0 c0 have "if \<exists>sp \<in> set ?spans. fst sp < 0 \<and> 0 \<le> snd sp \<and> opens_call (?lines ! fst sp)
         then 0 \<notin> set ?kept else 0 \<in> set ?kept"
    by (elim conjE) blast
  with in0 have k0: "0 \<in> set ?kept" by (simp only: if_False simp_thms)
  from ex eq out sp b2 c2 k2 b0 c0 k0 show ?thesis
    unfolding len by (intro conjI)
qed

text \<open>
  C5. At every line that the remover detects as opening a call, the remover drops exactly
  the span of the specification's rule and counts one statement: the opening line alone
  when it holds a semicolon or has no more opening than closing parentheses; otherwise the
  lines up to the first one where the running depth, started at the opening line's balance
  and increased by each consumed line's balance, has come back to zero (is no longer
  positive), or up to the end of the input when that never happens.
\<close>

theorem remover_span_follows_rule:
  assumes "i < length lines" and "opens_call (lines ! i)"
  shows "remove_loop lines i new_lines removed_count
           = remove_loop lines (Suc (spec_span_last lines i)) new_lines (removed_count + 1)
         \<and> removed_spans lines i
           = (i, spec_span_last lines i) # removed_spans lines (Suc (spec_span_last lines i))
         \<and> i \<le> spec_span_last lines i \<and> spec_span_last lines i < length lines"
proof -
  have nx: "remover_next lines i = Suc (spec_span_last lines i)"
    using assms by (rule remover_next_spec)
  have "i < remover_next lines i" by (rule remover_next_gt)
  moreover have "remover_next lines i \<le> length lines"
    using assms(1) by (rule remover_next_le)
  ultimately show ?thesis
    using assms nx by (simp add: remove_loop_drop removed_spans_drop)
qed

theorem remover_span_follows_rule_witness:
  "(0::nat) < length [''console.log('', ''  f(a),'', ''  b);'', ''next()'']
   \<and> opens_call ([''console.log('', ''  f(a),'', ''  b);'', ''next()''] ! 0)
   \<and> spec_span_last [''console.log('', ''  f(a),'', ''  b);'', ''next()''] 0 = 2
   \<and> remove_loop [''console.log('', ''  f(a),'', ''  b);'', ''next()''] 0 [] 0
       = remove_loop [''console.log('', ''  f(a),'', ''  b);'', ''next()''] 3 [] 1
   \<and> remove_loop [''console.log('', ''  f(a),'', ''  b);'', ''next()''] 0 [] 0 = ([''next()''], 1)"
proof -
  let ?lines = "[''console.log('', ''  f(a),'', ''  b);'', ''next()'']"
  have a: "(0::nat) < length ?lines" by simp
  have b: "opens_call (?lines ! 0)" by code_simp
  have c: "spec_span_last ?lines 0 = 2" by code_simp
  have d: "remove_loop ?lines 0 [] 0 = ([''next()''], 1)" by code_simp
  from remover_span_follows_rule [OF a b, of "[]" 0] a b c d show ?thesis
    by simp
qed

text \<open>
  C6. The lines that \<^verbatim>\<open>remove_console_statements\<close> joins into its result are a
  subsequence of the input lines: they are the input lines outside the removed spans, in
  their order and unchanged. The removed spans are as many as the removed count, each lies
  inside the input, and each starts strictly after the end of the one before.
\<close>

theorem retained_lines_subsequence:
  "fst (remove_console_statements content) = join_nl (fst (remove_lines (split_nl content)))
   \<and> subseq (fst (remove_lines (split_nl content))) (split_nl content)
   \<and> fst (remove_lines (split_nl content))
       = map (\<lambda>k. split_nl content ! k)
           (filter (\<lambda>k. \<not> list_ex (in_span k) (removed_spans (split_nl content) 0))
              [0..<length (split_nl content)])
   \<and> snd (remove_console_statements content) = int (length (removed_spans (split_nl content) 0))
   \<and> sorted_wrt (\<lambda>a b. snd a < fst b) (removed_spans (split_nl content) 0)
   \<and> list_all (\<lambda>sp. fst sp \<le> snd sp \<and> snd sp < length (split_nl content))
        (removed_spans (split_nl content) 0)"
proof -
  let ?lines = "split_nl content"
  have "subseq (fst (remove_lines ?lines)) ?lines"
    using remove_loop_subseq [of ?lines 0] by (simp add: remove_lines_def)
  moreover have "fst (remove_lines ?lines)
       = map (\<lambda>k. ?lines ! k)
           (filter (\<lambda>k. \<not> list_ex (in_span k) (removed_spans ?lines 0)) [0..<length ?lines])"
    unfolding remove_lines_def by (rule remove_loop_spans_lines)
  moreover have "snd (remove_console_statements content) = int (length (removed_spans ?lines 0))"
    by (simp add: snd_remove_console_statements remove_lines_def remove_loop_spans_count)
  ultimately show ?thesis
    by (simp add: fst_remove_console_statements removed_spans_sorted removed_spans_all_bounds)
qed

text \<open>
  C7. When the count of the file's content is 0, \<^verbatim>\<open>process_file\<close> returns the counts 0 and
  0, prints nothing and leaves the disk as it was (the result does not depend on the
  remover), and \<^verbatim>\<open>main\<close> reports the file as having no statements.
\<close>

theorem zero_statement_file_untouched:
  assumes "read_text (dsk st) file_path = Inr content"
    and "count_console_statements content = 0"
  shows "process_file file_path (dsk st) = ((path_name file_path, 0, 0), [], dsk st)
       \<and> main_step st file_path = st\<lparr>out := out st @ [No_statements (path_name file_path)]\<rparr>"
  using assms by (simp add: process_file_none_found main_step_def)

theorem zero_statement_file_untouched_witness:
  "read_text (dsk example_state) ''/p/c.js'' = Inr ''z()''
   \<and> count_console_statements ''z()'' = 0
   \<and> process_file ''/p/c.js'' (dsk example_state) = ((''c.js'', 0, 0), [], dsk example_state)
   \<and> main_step example_state ''/p/c.js''
       = example_state\<lparr>out := out example_state @ [No_statements ''c.js'']\<rparr>"
proof -
  have a: "read_text (dsk example_state) ''/p/c.js'' = Inr ''z()''"
    by (simp add: example_state_def example_disk_def read_text_def)
  have b: "count_console_statements ''z()'' = 0" by code_simp
  have c: "path_name ''/p/c.js'' = ''c.js''" by code_simp
  from zero_statement_file_untouched [OF a b] a b c show ?thesis
    by simp
qed

text \<open>
  C8. When a read or a write fails on a file of the batch, \<^verbatim>\<open>process_file\<close> catches it,
  prints the error with the file's name and returns the sentinel \<open>- 1\<close>; \<^verbatim>\<open>main\<close> prints
  the error line for the file, leaves the tally of cleaned files and the total untouched,
  and goes on with the files that follow. At the end of \<^verbatim>\<open>main\<close> every tallied file has
  a positive removed count and the total is the sum of these counts.
\<close>

theorem batch_isolation:
  assumes "io_fails (dsk (main_loop st pre)) f"
  shows "(\<exists>e d'. process_file f (dsk (main_loop st pre))
            = ((path_name f, 0, - 1), [Error_processing (path_name f) e], d')
          \<and> main_loop st (pre @ f # post)
            = main_loop ((main_loop st pre)
                \<lparr>out := out (main_loop st pre)
                   @ [Error_processing (path_name f) e, Error_line (path_name f)],
                 dsk := d'\<rparr>) post)
       \<and> tally_ok (main js_files d)"
proof
  from assms obtain e d' where p: "process_file f (dsk (main_loop st pre))
            = ((path_name f, 0, - 1), [Error_processing (path_name f) e], d')"
    using process_file_fails by blast
  then have "main_loop st (pre @ f # post)
            = main_loop ((main_loop st pre)
                \<lparr>out := out (main_loop st pre)
                   @ [Error_processing (path_name f) e, Error_line (path_name f)],
                 dsk := d'\<rparr>) post"
    by (simp add: main_loop_append main_step_fails)
  with p show "\<exists>e d'. process_file f (dsk (main_loop st pre))
            = ((path_name f, 0, - 1), [Error_processing (path_name f) e], d')
          \<and> main_loop st (pre @ f # post)
            = main_loop ((main_loop st pre)
                \<lparr>out := out (main_loop st pre)
                   @ [Error_processing (path_name f) e, Error_line (path_name f)],
                 dsk := d'\<rparr>) post"
    by blast
next
  have "tally_ok \<lparr>results = [], total_removed = 0,
      out = [Found_files (length js_files), Processing_files], dsk = d\<rparr>"
    by (simp add: tally_ok_def)
  then have "tally_ok (main_loop \<lparr>results = [], total_removed = 0,
      out = [Found_files (length js_files), Processing_files], dsk = d\<rparr> js_files)"
    by (rule main_loop_tally)
  then show "tally_ok (main js_files d)"
    by (simp add: main_def Let_def tally_ok_def)
qed

theorem batch_isolation_witness:
  "io_fails (dsk (main_loop example_state [])) ''/p/a.js''
   \<and> (\<exists>e d'. process_file ''/p/a.js'' (dsk (main_loop example_state []))
            = ((path_name ''/p/a.js'', 0, - 1), [Error_processing (path_name ''/p/a.js'') e], d')
          \<and> main_loop example_state ([] @ ''/p/a.js'' # [''/p/b.js''])
            = main_loop ((main_loop example_state [])
                \<lparr>out := out (main_loop example_state [])
                   @ [Error_processing (path_name ''/p/a.js'') e, Error_line (path_name ''/p/a.js'')],
                 dsk := d'\<rparr>) [''/p/b.js''])
   \<and> results (main_loop example_state [''/p/a.js'', ''/p/b.js'']) = [(''b.js'', 1, 1)]
   \<and> total_removed (main_loop example_state [''/p/a.js'', ''/p/b.js'']) = 1"
proof -
  have a: "io_fails (dsk (main_loop example_state [])) ''/p/a.js''"
    by (simp add: main_loop_def example_state_def example_disk_def io_fails_def read_text_def)
  have b: "results (main_loop example_state [''/p/a.js'', ''/p/b.js'']) = [(''b.js'', 1, 1)]"
    by code_simp
  have c: "total_removed (main_loop example_state [''/p/a.js'', ''/p/b.js'']) = 1"
    by code_simp
  from batch_isolation [OF a, of "[''/p/b.js'']"] a b c show ?thesis
    by blast
qed




text \<open>
  C10. The removed count is 0 exactly when the count is 0, and a positive count gives a
  positive removed count. In \<^verbatim>\<open>main\<close> the error line is printed for a file exactly when
  \<^verbatim>\<open>process_file\<close> returned the sentinel \<open>- 1\<close>, which happens exactly when a read or a
  write failed.
\<close>

theorem zero_removed_iff_zero_counted:
  "(snd (remove_console_statements content) = 0 \<longleftrightarrow> count_console_statements content = 0)
   \<and> (0 < count_console_statements content \<longrightarrow> 0 < snd (remove_console_statements content))
   \<and> (last (out (main_step st f)) = Error_line (path_name f)
        \<longleftrightarrow> snd (snd (fst (process_file f (dsk st)))) = - 1)
   \<and> (snd (snd (fst (process_file f (dsk st)))) = - 1 \<longleftrightarrow> io_fails (dsk st) f)"
  using removed_pos [of content]
  by (simp add: zero_iff_zero main_step_last process_file_sentinel_iff)

theorem zero_removed_iff_zero_counted_witness:
  "0 < count_console_statements (''console.warn('' @ nl # ''  1'' @ nl # '');'' @ nl # ''y()'')
   \<and> 0 < snd (remove_console_statements (''console.warn('' @ nl # ''  1'' @ nl # '');'' @ nl # ''y()''))
   \<and> \<not> io_fails (dsk example_state) ''/p/b.js''
   \<and> last (out (main_step example_state ''/p/b.js'')) \<noteq> Error_line (path_name ''/p/b.js'')"
proof -
  let ?c = "''console.warn('' @ nl # ''  1'' @ nl # '');'' @ nl # ''y()''"
  have a: "0 < count_console_statements ?c" by code_simp
  have b: "\<not> io_fails (dsk example_state) ''/p/b.js''"
    by (simp add: example_state_def example_disk_def io_fails_def read_text_def)
  from zero_removed_iff_zero_counted [of ?c example_state "''/p/b.js''"] a b show ?thesis
    by blast
qed

end
